theory Spec2Isabelle
  imports Main "HOL-Library.Char_ord" "HOL-Library.List_Lexorder" "HOL-Library.Multiset"
begin

section \<open>csvjoin: an N-way join of CSV sources on their common columns\<close>

text \<open>
  A shallow embedding of \<^verbatim>\<open>csvjoin.go\<close>. Go strings are byte sequences, and so is
  \<^typ>\<open>string\<close>; Go's \<^verbatim>\<open><\<close> on strings (the order of \<^verbatim>\<open>sort.Strings\<close>) compares
  byte by byte, a proper prefix first, which is the lexicographic order of
  \<^typ>\<open>char list\<close> over the byte order of \<^typ>\<open>char\<close>.

  Every \<^verbatim>\<open>log.Fatalf\<close>, \<^verbatim>\<open>os.Exit\<close> and run-time panic of the source is a value of
  \<open>error\<close>; a function that can reach one returns \<open>error + 'a\<close>.
\<close>

subsection \<open>Data model\<close>

datatype error =
    Usage                   \<comment> \<open>fewer than two file arguments\<close>
  | CannotRead string       \<comment> \<open>\<^verbatim>\<open>os.Open\<close> failed for the named file\<close>
  | NoHeaders string        \<comment> \<open>the named file ends before its header row\<close>
  | ReadFailure             \<comment> \<open>\<^verbatim>\<open>failed to read/parse CSV input\<close>\<close>
  | NoJoinColumns           \<comment> \<open>\<^verbatim>\<open>cannot identify columns common to all input files\<close>\<close>
  | IndexOutOfRange         \<comment> \<open>run-time panic of a slice index\<close>

text \<open>\<^verbatim>\<open>type Record map[string]string\<close>. A Record is only written by key and read by
  key, never ranged over.\<close>

type_synonym Record = "string \<rightharpoonup> string"

text \<open>\<^verbatim>\<open>rec[c]\<close> in a value context: the zero value, the empty string, for an absent key.\<close>

definition index_rec :: "Record \<Rightarrow> string \<Rightarrow> string" where
  "index_rec rec c = (case rec c of None \<Rightarrow> [] | Some v \<Rightarrow> v)"

text \<open>
  A Go map that the program ranges over is an association list with distinct keys,
  in the order of first insertion. The order in which \<^verbatim>\<open>range\<close> visits the keys is
  chosen by the Go run time, anew for each loop: it is a parameter of the model, a
  function that rearranges the list of keys.
\<close>

type_synonym range_order = "string list \<Rightarrow> string list"

definition permuting :: "range_order \<Rightarrow> bool" where
  "permuting rng = (\<forall>ks. mset (rng ks) = mset ks)"

text \<open>\<^verbatim>\<open>type DataCollection struct { data map[string][]Record }\<close>: the struct has the
  one field \<^verbatim>\<open>data\<close> and is identified with it.\<close>

type_synonym DataCollection = "(string \<times> Record list) list"

definition NewDataCollection :: DataCollection where
  "NewDataCollection = []"

text \<open>\<^verbatim>\<open>dc.data[key]\<close>: the nil slice for an absent key.\<close>

definition data_at :: "DataCollection \<Rightarrow> string \<Rightarrow> Record list" where
  "data_at dc key = (case map_of dc key of None \<Rightarrow> [] | Some rs \<Rightarrow> rs)"

text \<open>\<^verbatim>\<open>m[k] = v\<close> on an association list: overwrite in place, or insert at the end.\<close>

fun assign :: "(string \<times> 'v) list \<Rightarrow> string \<Rightarrow> 'v \<Rightarrow> (string \<times> 'v) list" where
  "assign [] k v = [(k, v)]"
| "assign ((k', v') # m) k v = (if k' = k then (k, v) # m else (k', v') # assign m k v)"

definition Add :: "DataCollection \<Rightarrow> string \<Rightarrow> Record \<Rightarrow> DataCollection" where
  "Add dc key rec = (let cur = data_at dc key in assign dc key (cur @ [rec]))"

text \<open>\<^verbatim>\<open>UniqueSlice\<close>: a slice of distinct strings.\<close>

type_synonym UniqueSlice = "string list"

fun Append :: "UniqueSlice \<Rightarrow> string \<Rightarrow> UniqueSlice" where
  "Append [] s = [s]"
| "Append (x # u) s = (if x = s then x # u else x # Append u s)"

definition GetSlice :: "UniqueSlice \<Rightarrow> string list" where
  "GetSlice u = u"

subsection \<open>Header reconciliation\<close>

text \<open>\<^verbatim>\<open>headerCounts[col]++\<close>, once for every cell of every header.\<close>

definition count_at :: "(string \<times> nat) list \<Rightarrow> string \<Rightarrow> nat" where
  "count_at hc col = (case map_of hc col of None \<Rightarrow> 0 | Some n \<Rightarrow> n)"

definition incr :: "(string \<times> nat) list \<Rightarrow> string \<Rightarrow> (string \<times> nat) list" where
  "incr hc col = assign hc col (count_at hc col + 1)"

definition headerCounts :: "string list list \<Rightarrow> (string \<times> nat) list" where
  "headerCounts allHeaders = fold (\<lambda>header hc. fold (\<lambda>col hc. incr hc col) header hc) allHeaders []"

definition IdentifyJoinColumns :: "range_order \<Rightarrow> string list list \<Rightarrow> error + string list" where
  "IdentifyJoinColumns rng allHeaders =
     (let hc = headerCounts allHeaders;
          joinColumns = filter (\<lambda>col. count_at hc col = length allHeaders) (rng (map fst hc))
      in if length joinColumns = 0 then Inl NoJoinColumns else Inr joinColumns)"

definition IdentifyOutputColumns :: "string list list \<Rightarrow> string list" where
  "IdentifyOutputColumns allHeaders =
     GetSlice (fold (\<lambda>header u. fold (\<lambda>col u. Append u col) header u) allHeaders [])"

subsection \<open>Loading one source\<close>

text \<open>
  A \<^verbatim>\<open>csv.Reader\<close> is the sequence of the results its \<^verbatim>\<open>Read\<close> calls will give before
  end of file: a row, or an error other than \<^verbatim>\<open>io.EOF\<close> (a parse error or a failed
  read) together with the record that \<^verbatim>\<open>Read\<close> returns beside it (nil, or the fields
  parsed before the error). At the end of the sequence every \<^verbatim>\<open>Read\<close> gives
  \<^verbatim>\<open>io.EOF\<close>.
\<close>

datatype read_result = Row "string list" | Failed "string list"

type_synonym Reader = "read_result list"

text \<open>\<^verbatim>\<open>recordOf\<close>: \<^verbatim>\<open>headers[i]\<close> panics for a row longer than the header; a later
  cell of the same column name overwrites an earlier one.\<close>

fun recordOf_loop :: "string list \<Rightarrow> nat \<Rightarrow> string list \<Rightarrow> Record \<Rightarrow> error + Record" where
  "recordOf_loop headers i [] r = Inr r"
| "recordOf_loop headers i (v # row) r =
     (if i < length headers then recordOf_loop headers (i + 1) row (r(headers ! i \<mapsto> v))
      else Inl IndexOutOfRange)"

definition recordOf :: "string list \<Rightarrow> string list \<Rightarrow> error + Record" where
  "recordOf headers row = recordOf_loop headers 0 row Map.empty"

text \<open>\<^verbatim>\<open>keyOf\<close>: the values of the join columns, \<^verbatim>\<open>++\<close> between them.\<close>

fun keyOf_loop :: "nat \<Rightarrow> string list \<Rightarrow> Record \<Rightarrow> string \<Rightarrow> string" where
  "keyOf_loop i [] rec sb = sb"
| "keyOf_loop i (c # cs) rec sb =
     keyOf_loop (i + 1) cs rec ((if i > 0 then sb @ ''++'' else sb) @ index_rec rec c)"

definition keyOf :: "string list \<Rightarrow> Record \<Rightarrow> string" where
  "keyOf joinColumns rec = keyOf_loop 0 joinColumns rec []"

fun ReadData_loop :: "Reader \<Rightarrow> string list \<Rightarrow> string list \<Rightarrow> DataCollection \<Rightarrow> error + DataCollection" where
  "ReadData_loop [] headers joinColumns data = Inr data"
| "ReadData_loop (Failed partial # reader) headers joinColumns data = Inl ReadFailure"
| "ReadData_loop (Row row # reader) headers joinColumns data =
     (case recordOf headers row of
        Inl e \<Rightarrow> Inl e
      | Inr rec \<Rightarrow> ReadData_loop reader headers joinColumns (Add data (keyOf joinColumns rec) rec))"

definition ReadData :: "Reader \<Rightarrow> string list \<Rightarrow> string list \<Rightarrow> error + DataCollection" where
  "ReadData reader headers joinColumns = ReadData_loop reader headers joinColumns NewDataCollection"

subsection \<open>Loading all sources\<close>

text \<open>\<^verbatim>\<open>keyMap[k] = true\<close>: a set of keys, as the list of its members.\<close>

definition mark :: "string list \<Rightarrow> string \<Rightarrow> string list" where
  "mark keyMap k = (if k \<in> set keyMap then keyMap else keyMap @ [k])"

fun ReadAll_loop :: "range_order \<Rightarrow> nat \<Rightarrow> Reader list \<Rightarrow> string list list \<Rightarrow> string list \<Rightarrow>
    string list \<Rightarrow> DataCollection list \<Rightarrow> error + (string list \<times> DataCollection list)" where
  "ReadAll_loop rng i [] allHeaders joinColumns keyMap allData = Inr (keyMap, allData)"
| "ReadAll_loop rng i (r # readers) allHeaders joinColumns keyMap allData =
     (if i < length allHeaders then
        (case ReadData r (allHeaders ! i) joinColumns of
           Inl e \<Rightarrow> Inl e
         | Inr data \<Rightarrow>
             ReadAll_loop rng (i + 1) readers allHeaders joinColumns
               (fold (\<lambda>k keyMap. mark keyMap k) (rng (map fst data)) keyMap) (allData @ [data]))
      else Inl IndexOutOfRange)"

definition ReadAllInputSources :: "range_order \<Rightarrow> Reader list \<Rightarrow> string list list \<Rightarrow> string list \<Rightarrow>
    error + (string list \<times> DataCollection list)" where
  "ReadAllInputSources rng readers allHeaders joinColumns =
     (case ReadAll_loop rng 0 readers allHeaders joinColumns [] [] of
        Inl e \<Rightarrow> Inl e
      | Inr (keyMap, allData) \<Rightarrow> Inr (sort (rng keyMap), allData))"

subsection \<open>Writing the join of one key\<close>

text \<open>
  The \<^verbatim>\<open>csv.Writer\<close> is the sequence of the rows written to it so far. Its encoding of
  a row into bytes and the failure of the underlying stream belong to the library
  and to the operating system, and are not modelled.
\<close>

type_synonym Writer = "string list list"

definition Write :: "string list \<Rightarrow> Writer \<Rightarrow> Writer" where
  "Write row w = w @ [row]"

text \<open>\<^verbatim>\<open>type Printer func([]Record)\<close>: called for its effect, on the writer in this
  program; \<^verbatim>\<open>recurse\<close> does not depend on what the effect is.\<close>

type_synonym 'w Printer = "Record list \<Rightarrow> 'w \<Rightarrow> 'w"

text \<open>The inner loop of \<^verbatim>\<open>prt\<close>: the first record that has the column, else \<^verbatim>\<open>""\<close>.\<close>

fun cell :: "string \<Rightarrow> Record list \<Rightarrow> string" where
  "cell col [] = []"
| "cell col (rec # recs) = (case rec col of Some v \<Rightarrow> v | None \<Rightarrow> cell col recs)"

definition project :: "string list \<Rightarrow> Record list \<Rightarrow> string list" where
  "project outputColumns recs = fold (\<lambda>col row. row @ [cell col recs]) outputColumns []"

definition prt :: "string list \<Rightarrow> Writer Printer" where
  "prt outputColumns recs w = Write (project outputColumns recs) w"

text \<open>
  \<^verbatim>\<open>recurse\<close>. Go's \<^verbatim>\<open>append(recs, rec)\<close> may write into the array shared with the
  caller's slice, at index \<^verbatim>\<open>len(recs)\<close>; the printer reads the slice before the next
  iteration of the loop writes there again, and no call writes below its own
  \<^verbatim>\<open>len(recs)\<close>, so each call sees the list it would see with a fresh copy.
\<close>

fun recurse :: "string \<Rightarrow> Record list \<Rightarrow> DataCollection list \<Rightarrow> 'w Printer \<Rightarrow> 'w \<Rightarrow> 'w" where
  "recurse key recs [] printer w = printer recs w"
| "recurse key recs (this # remain) printer w =
     (let thisRecords = data_at this key
      in if length thisRecords = 0 then recurse key recs remain printer w
         else fold (\<lambda>rec w. recurse key (recs @ [rec]) remain printer w) thisRecords w)"

definition WriteCSVs :: "string \<Rightarrow> string list \<Rightarrow> DataCollection list \<Rightarrow> Writer \<Rightarrow> Writer" where
  "WriteCSVs key outputColumns allData w = recurse key [] allData (prt outputColumns) w"

subsection \<open>The program\<close>

definition GetFileNames :: "string list \<Rightarrow> error + string list" where
  "GetFileNames args = (if length args < 2 then Inl Usage else Inr args)"

text \<open>The file system: the readers of the files that can be opened, by name.\<close>

fun OpenReaders :: "(string \<rightharpoonup> Reader) \<Rightarrow> string list \<Rightarrow> error + Reader list" where
  "OpenReaders fs [] = Inr []"
| "OpenReaders fs (fName # fileNames) =
     (case fs fName of
        None \<Rightarrow> Inl (CannotRead fName)
      | Some r \<Rightarrow> (case OpenReaders fs fileNames of Inl e \<Rightarrow> Inl e | Inr rs \<Rightarrow> Inr (r # rs)))"

text \<open>
  \<^verbatim>\<open>GatherAllHeaders\<close> takes the first result of each reader. Only \<^verbatim>\<open>io.EOF\<close> is
  tested: after any other error the record returned beside it is appended as that
  source's header.
  The readers are returned advanced by one \<^verbatim>\<open>Read\<close>.
\<close>

fun GatherAllHeaders :: "Reader list \<Rightarrow> string list \<Rightarrow> error + (string list list \<times> Reader list)" where
  "GatherAllHeaders [] fileNames = Inr ([], [])"
| "GatherAllHeaders (r # readers) fileNames =
     (case r of
        [] \<Rightarrow> (case fileNames of [] \<Rightarrow> Inl IndexOutOfRange | fName # _ \<Rightarrow> Inl (NoHeaders fName))
      | res # r' \<Rightarrow>
          (let header = (case res of Row h \<Rightarrow> h | Failed h \<Rightarrow> h)
           in case GatherAllHeaders readers (tl fileNames) of
                Inl e \<Rightarrow> Inl e
              | Inr (allHeaders, readers') \<Rightarrow> Inr (header # allHeaders, r' # readers')))"

definition main :: "range_order \<Rightarrow> string list \<Rightarrow> (string \<rightharpoonup> Reader) \<Rightarrow> error + Writer" where
  "main rng args fs =
     (case GetFileNames args of Inl e \<Rightarrow> Inl e | Inr fileNames \<Rightarrow>
     (case OpenReaders fs fileNames of Inl e \<Rightarrow> Inl e | Inr readers \<Rightarrow>
     (case GatherAllHeaders readers fileNames of Inl e \<Rightarrow> Inl e | Inr (allHeaders, readers') \<Rightarrow>
     (case IdentifyJoinColumns rng allHeaders of Inl e \<Rightarrow> Inl e | Inr joinColumns \<Rightarrow>
     (let outputColumns = IdentifyOutputColumns allHeaders in
     (case ReadAllInputSources rng readers' allHeaders joinColumns of Inl e \<Rightarrow> Inl e
      | Inr (allKeys, allData) \<Rightarrow>
          Inr (fold (\<lambda>key w. WriteCSVs key outputColumns allData w) allKeys
                 (Write outputColumns []))))))))"

subsection \<open>Notions of the specification\<close>

text \<open>
  What one source offers to a combination for a key: each of its records for the
  key, in the order they are stored, or a single empty slot when it has none.
\<close>

definition slots :: "string \<Rightarrow> DataCollection \<Rightarrow> Record list list" where
  "slots key dc = (if data_at dc key = [] then [[]] else map (\<lambda>rec. [rec]) (data_at dc key))"

text \<open>
  The combinations in nested order: \<^const>\<open>product_lists\<close> runs through the choices of
  the first list in its outermost loop and through those of the last list in its
  innermost one.
\<close>

definition combinations :: "string \<Rightarrow> Record list \<Rightarrow> DataCollection list \<Rightarrow> Record list list" where
  "combinations key recs remain =
     map (\<lambda>choice. recs @ concat choice) (product_lists (map (slots key) remain))"

text \<open>The records of the rows of a source, in the order of the rows.\<close>

definition loaded_records :: "string list \<Rightarrow> Reader \<Rightarrow> Record list" where
  "loaded_records headers reader =
     concat (map (\<lambda>res. case res of
                          Row row \<Rightarrow> (case recordOf headers row of Inl e \<Rightarrow> [] | Inr rec \<Rightarrow> [rec])
                        | Failed partial \<Rightarrow> []) reader)"

text \<open>The position at which a name first occurs in a list of names.\<close>

definition first_index :: "string list \<Rightarrow> string \<Rightarrow> nat" where
  "first_index xs x = length (takeWhile (\<lambda>y. y \<noteq> x) xs)"

text \<open>A list of values written one after the other, \<^verbatim>\<open>++\<close> between neighbours.\<close>

fun joined :: "string list \<Rightarrow> string" where
  "joined [] = []"
| "joined [v] = v"
| "joined (v # w # vs) = v @ ''++'' @ joined (w # vs)"

subsection \<open>A worked example\<close>

text \<open>
  Source A has the header \<^verbatim>\<open>id,name\<close> and the rows \<^verbatim>\<open>1,alice\<close> and \<^verbatim>\<open>2,bob\<close>; source B has
  the header \<^verbatim>\<open>id,age\<close> and the rows \<^verbatim>\<open>1,30\<close> and \<^verbatim>\<open>1,31\<close>.
\<close>

definition alice :: Record where "alice = [''id'' \<mapsto> ''1'', ''name'' \<mapsto> ''alice'']"
definition bob :: Record where "bob = [''id'' \<mapsto> ''2'', ''name'' \<mapsto> ''bob'']"
definition age30 :: Record where "age30 = [''id'' \<mapsto> ''1'', ''age'' \<mapsto> ''30'']"
definition age31 :: Record where "age31 = [''id'' \<mapsto> ''1'', ''age'' \<mapsto> ''31'']"

definition rows_A :: Reader where "rows_A = [Row [''1'', ''alice''], Row [''2'', ''bob'']]"
definition rows_B :: Reader where "rows_B = [Row [''1'', ''30''], Row [''1'', ''31'']]"
definition data_A :: DataCollection where "data_A = [(''1'', [alice]), (''2'', [bob])]"
definition data_B :: DataCollection where "data_B = [(''1'', [age30, age31])]"

definition files_AB :: "string \<rightharpoonup> Reader" where
  "files_AB = [''A'' \<mapsto> Row [''id'', ''name''] # rows_A, ''B'' \<mapsto> Row [''id'', ''age''] # rows_B]"

subsection \<open>Further inputs\<close>

text \<open>Two rows of a source with the header \<^verbatim>\<open>lang,ext\<close>: \<^verbatim>\<open>C++,\<close> and \<^verbatim>\<open>C,++\<close>.\<close>

definition cpp_left :: Record where "cpp_left = [''lang'' \<mapsto> ''C++'', ''ext'' \<mapsto> []]"
definition cpp_right :: Record where "cpp_right = [''lang'' \<mapsto> ''C'', ''ext'' \<mapsto> ''++'']"

text \<open>File A has the header \<^verbatim>\<open>a,a\<close> and the row \<^verbatim>\<open>1,2\<close>; file B has the header \<^verbatim>\<open>b\<close> and
  the row \<^verbatim>\<open>3\<close>.\<close>

definition files_dup :: "string \<rightharpoonup> Reader" where
  "files_dup = [''A'' \<mapsto> [Row [''a'', ''a''], Row [''1'', ''2'']],
                ''B'' \<mapsto> [Row [''b''], Row [''3'']]]"

text \<open>Both files have the header \<^verbatim>\<open>a,b\<close>; file A has the rows \<^verbatim>\<open>1,2\<close> and \<^verbatim>\<open>2,1\<close>, file B
  the row \<^verbatim>\<open>1,2\<close>.\<close>

definition files_swap :: "string \<rightharpoonup> Reader" where
  "files_swap = [''A'' \<mapsto> [Row [''a'', ''b''], Row [''1'', ''2''], Row [''2'', ''1'']],
                 ''B'' \<mapsto> [Row [''a'', ''b''], Row [''1'', ''2'']]]"

text \<open>
  File A has the header \<^verbatim>\<open>a,a\<close> and the row \<^verbatim>\<open>1,2\<close>. File B is the single line \<^verbatim>\<open>a"b\<close>:
  a quote inside an unquoted field, for which \<^verbatim>\<open>Read\<close> returns a parse error and no
  field.
\<close>

definition files_bad_header :: "string \<rightharpoonup> Reader" where
  "files_bad_header = [''A'' \<mapsto> [Row [''a'', ''a''], Row [''1'', ''2'']],
                       ''B'' \<mapsto> [Failed []]]"

text \<open>Both files have the header \<^verbatim>\<open>a\<close>; the line after the header of file B does not
  parse.\<close>

definition files_bad_row :: "string \<rightharpoonup> Reader" where
  "files_bad_row = [''A'' \<mapsto> [Row [''a''], Row [''1'']],
                    ''B'' \<mapsto> [Row [''a''], Failed []]]"

section \<open>Properties\<close>

lemmas example_defs =
  alice_def bob_def age30_def age31_def rows_A_def rows_B_def data_A_def data_B_def

lemmas eval_defs =
  ReadData_def NewDataCollection_def recordOf_def keyOf_def Add_def data_at_def index_rec_def

subsection \<open>The join of one key\<close>

lemma fold_snoc_map: "fold (\<lambda>x acc. acc @ [f x]) xs acc = acc @ map f xs"
  by (induction xs arbitrary: acc) simp_all

lemma project_map: "project outputColumns recs = map (\<lambda>col. cell col recs) outputColumns"
  by (simp add: project_def fold_snoc_map)

lemma fold_trace:
  assumes "\<And>x w. x \<in> set xs \<Longrightarrow> g x w = w @ h x"
  shows "fold g xs w = w @ concat (map h xs)"
  using assms by (induction xs arbitrary: w) simp_all

lemma combinations_Nil: "combinations key recs [] = [recs]"
  by (simp add: combinations_def)

lemma combinations_Cons:
  "combinations key recs (this # remain) =
     (if data_at this key = [] then combinations key recs remain
      else concat (map (\<lambda>rec. combinations key (recs @ [rec]) remain) (data_at this key)))"
  by (simp add: combinations_def slots_def map_concat comp_def)

lemma recurse_trace:
  "recurse key recs remain (\<lambda>rs w. w @ [f rs]) w = w @ map f (combinations key recs remain)"
proof (induction remain arbitrary: recs w)
  case Nil
  show ?case by (simp add: combinations_Nil)
next
  case (Cons this remain)
  show ?case
  proof (cases "data_at this key = []")
    case True
    then show ?thesis by (simp add: Cons.IH combinations_Cons)
  next
    case False
    have "fold (\<lambda>rec w. recurse key (recs @ [rec]) remain (\<lambda>rs w. w @ [f rs]) w) (data_at this key) w
        = w @ concat (map (\<lambda>rec. map f (combinations key (recs @ [rec]) remain)) (data_at this key))"
      by (rule fold_trace) (simp add: Cons.IH)
    with False show ?thesis
      by (simp add: combinations_Cons map_concat comp_def)
  qed
qed

lemma length_slots: "length (slots key dc) = max (length (data_at dc key)) 1"
  by (cases "data_at dc key") (simp_all add: slots_def)

lemma length_product_lists_prod: "length (product_lists xss) = prod_list (map length xss)"
  by (induction xss) (simp_all add: length_concat comp_def sum_list_triv)

lemma length_combinations:
  "length (combinations key recs remain) =
     prod_list (map (\<lambda>dc. max (length (data_at dc key)) 1) remain)"
  by (simp add: combinations_def length_product_lists_prod comp_def length_slots)

lemma WriteCSVs_rows:
  "WriteCSVs key outputColumns allData w =
     w @ map (project outputColumns) (combinations key [] allData)"
proof -
  have "prt outputColumns = (\<lambda>rs w. w @ [project outputColumns rs])"
    by (intro ext) (simp add: prt_def Write_def)
  then show ?thesis by (simp add: WriteCSVs_def recurse_trace)
qed


text \<open>
  C3. For every key, \<^verbatim>\<open>WriteCSVs\<close> adds to the writer as many rows as the product, over
  all sources, of the larger of 1 and the number of records the source holds for the
  key. A source without records for the key counts as one, so at least one row is
  written for the key whatever the sources hold.
\<close>

theorem rows_per_key:
  "length (WriteCSVs key outputColumns allData w) =
     length w + prod_list (map (\<lambda>dc. max (length (data_at dc key)) 1) allData)
   \<and> length w < length (WriteCSVs key outputColumns allData w)"
proof -
  have "0 < prod_list (map (\<lambda>dc. max (length (data_at dc key)) (1::nat)) allData)"
    by (induction allData) simp_all
  then show ?thesis by (simp add: WriteCSVs_rows length_combinations)
qed

subsection \<open>Records are stored in row order\<close>

lemma map_of_assign: "map_of (assign m k v) = (map_of m)(k \<mapsto> v)"
  by (induction m) (auto simp: fun_eq_iff)

lemma keys_assign:
  "map fst (assign m k v) = (if k \<in> fst ` set m then map fst m else map fst m @ [k])"
  by (induction m) force+

lemma data_at_Add:
  "data_at (Add dc k rec) key = (if k = key then data_at dc key @ [rec] else data_at dc key)"
  by (simp add: Add_def data_at_def map_of_assign)

lemma ReadData_loop_order:
  "ReadData_loop reader headers joinColumns data = Inr data' \<Longrightarrow>
   data_at data' key =
     data_at data key @ filter (\<lambda>rec. keyOf joinColumns rec = key) (loaded_records headers reader)"
proof (induction reader headers joinColumns data rule: ReadData_loop.induct)
  case (1 headers joinColumns data)
  then show ?case by (simp add: loaded_records_def)
next
  case (2 partial reader headers joinColumns data)
  then show ?case by simp
next
  case (3 row reader headers joinColumns data)
  from "3.prems" obtain rec where rec: "recordOf headers row = Inr rec"
    by (cases "recordOf headers row") simp_all
  with "3.prems"
  have "ReadData_loop reader headers joinColumns (Add data (keyOf joinColumns rec) rec) = Inr data'"
    by simp
  from "3.IH"[OF rec this] rec show ?case
    by (simp add: loaded_records_def data_at_Add)
qed

lemma ReadData_order:
  "ReadData reader headers joinColumns = Inr data \<Longrightarrow>
   data_at data key = filter (\<lambda>rec. keyOf joinColumns rec = key) (loaded_records headers reader)"
  using ReadData_loop_order[of reader headers joinColumns NewDataCollection data key]
  by (simp add: ReadData_def NewDataCollection_def data_at_def)

text \<open>
  C8. The sequence of combinations that \<^verbatim>\<open>recurse\<close> hands to the printer, observed by a
  printer that logs its argument, is the nested-loop order over the sources' slots:
  the first source in the outermost loop, the last source in the innermost. The
  records a loaded source holds for a key are the records of its rows with that key,
  in row order.
\<close>

theorem combination_order:
  "recurse key recs remain (\<lambda>rs log. log @ [rs]) [] =
     map (\<lambda>choice. recs @ concat choice) (product_lists (map (slots key) remain))
   \<and> (ReadData reader headers joinColumns = Inr data \<longrightarrow>
        data_at data key =
          filter (\<lambda>rec. keyOf joinColumns rec = key) (loaded_records headers reader))"
  using recurse_trace[of key recs remain "\<lambda>rs. rs" "[]"]
    ReadData_order[of reader headers joinColumns data key]
  by (simp add: combinations_def)

theorem combination_order_witness:
  "ReadData rows_B [''id'', ''age''] [''id''] = Inr data_B
   \<and> recurse ''1'' [] [data_A, data_B] (\<lambda>rs log. log @ [rs]) [] =
       map (\<lambda>choice. [] @ concat choice) (product_lists (map (slots ''1'') [data_A, data_B]))
   \<and> data_at data_B ''1'' =
       filter (\<lambda>rec. keyOf [''id''] rec = ''1'') (loaded_records [''id'', ''age''] rows_B)"
proof -
  have h: "ReadData rows_B [''id'', ''age''] [''id''] = Inr data_B"
    by (simp add: example_defs eval_defs)
  from combination_order[of "''1''" "[]" "[data_A, data_B]" rows_B "[''id'', ''age'']"
      "[''id'']" data_B] h
  show ?thesis by blast
qed

lemma combination_order_example:
  "recurse ''1'' [] [data_A, data_B] (\<lambda>rs log. log @ [rs]) [] =
     [[alice, age30], [alice, age31]]"
  by (simp add: data_A_def data_B_def data_at_def)

subsection \<open>The row of one combination\<close>

lemma cell_first:
  "i < length recs \<Longrightarrow> (recs ! i) col = Some v \<Longrightarrow> \<forall>j<i. (recs ! j) col = None \<Longrightarrow>
   cell col recs = v"
proof (induction recs arbitrary: i)
  case Nil
  then show ?case by simp
next
  case (Cons rec recs)
  show ?case
  proof (cases i)
    case 0
    with Cons.prems show ?thesis by simp
  next
    case (Suc n)
    with Cons.prems have "rec col = None" by auto
    moreover have "cell col recs = v"
      using Cons.prems Suc by (intro Cons.IH[of n]) auto
    ultimately show ?thesis by simp
  qed
qed

lemma cell_none: "\<forall>rec\<in>set recs. rec col = None \<Longrightarrow> cell col recs = []"
  by (induction recs) simp_all

lemma fold_prt:
  "fold (prt outputColumns) combos w = w @ map (project outputColumns) combos"
  by (induction combos arbitrary: w) (simp_all add: prt_def Write_def)

text \<open>
  C5. For a combination of records the printer writes exactly one row, with one cell
  per output column. In that row the cell of the k-th output column is the value of
  the first record of the combination that has the column (record i has it and no
  record before i does), and the empty string when no record of the combination has
  it. \<^verbatim>\<open>WriteCSVs\<close> calls the printer once for each combination of the key, in their
  order.
\<close>

theorem cell_value:
  assumes "k < length outputColumns"
  shows "(\<exists>row. prt outputColumns recs w = w @ [row]
            \<and> length row = length outputColumns
            \<and> (i < length recs \<and> (recs ! i) (outputColumns ! k) = Some v
                  \<and> (\<forall>j<i. (recs ! j) (outputColumns ! k) = None)
                \<longrightarrow> row ! k = v)
            \<and> ((\<forall>rec\<in>set recs. rec (outputColumns ! k) = None) \<longrightarrow> row ! k = []))
       \<and> WriteCSVs key outputColumns allData w =
           fold (prt outputColumns) (combinations key [] allData) w"
proof -
  let ?row = "project outputColumns recs"
  have "prt outputColumns recs w = w @ [?row]"
    by (simp add: prt_def Write_def)
  moreover have "length ?row = length outputColumns"
    by (simp add: project_map)
  moreover have "i < length recs \<and> (recs ! i) (outputColumns ! k) = Some v
                  \<and> (\<forall>j<i. (recs ! j) (outputColumns ! k) = None)
                \<longrightarrow> ?row ! k = v"
    using assms by (auto simp: project_map cell_first)
  moreover have "(\<forall>rec\<in>set recs. rec (outputColumns ! k) = None) \<longrightarrow> ?row ! k = []"
    using assms by (auto simp: project_map cell_none)
  moreover have "WriteCSVs key outputColumns allData w =
           fold (prt outputColumns) (combinations key [] allData) w"
    by (simp add: WriteCSVs_rows fold_prt)
  ultimately show ?thesis by blast
qed

theorem cell_value_witness:
  "(2::nat) < length [''id'', ''name'', ''age''] \<and> (1::nat) < length [alice, age30]
   \<and> ([alice, age30] ! 1) ''age'' = Some ''30'' \<and> alice ''age'' = None
   \<and> prt [''id'', ''name'', ''age''] [alice, age30] [] = [[''1'', ''alice'', ''30'']]
   \<and> bob ''age'' = None
   \<and> prt [''id'', ''name'', ''age''] [bob] [] = [[''2'', ''bob'', []]]
   \<and> WriteCSVs ''1'' [''id'', ''name'', ''age''] [data_A, data_B] [] =
       [[''1'', ''alice'', ''30''], [''1'', ''alice'', ''31'']]"
  using cell_value[of 2 "[''id'', ''name'', ''age'']" "[alice, age30]" "[]" 1 "''30''"
      "''1''" "[data_A, data_B]"]
    cell_value[of 2 "[''id'', ''name'', ''age'']" "[bob]" "[]" 0 "[]" "''1''" "[]"]
  by (simp add: example_defs prt_def Write_def project_def data_at_def WriteCSVs_def)

subsection \<open>The width of the output\<close>

lemma length_project: "length (project outputColumns recs) = length outputColumns"
  by (simp add: project_map)

lemma write_all_keys:
  "fold (\<lambda>key w. WriteCSVs key outputColumns allData w) allKeys w =
     w @ concat (map (\<lambda>key. map (project outputColumns) (combinations key [] allData)) allKeys)"
  by (rule fold_trace) (simp add: WriteCSVs_rows)

lemma main_output:
  assumes "main rng args fs = Inr out"
  shows "\<exists>allHeaders allKeys allData.
           out = IdentifyOutputColumns allHeaders #
                 concat (map (\<lambda>key. map (project (IdentifyOutputColumns allHeaders))
                                       (combinations key [] allData)) allKeys)"
  using assms
  by (auto simp: main_def Let_def write_all_keys Write_def split: sum.splits prod.splits)

lemma main_AB:
  "main (\<lambda>ks. ks) [''A'', ''B''] files_AB =
     Inr [[''id'', ''name'', ''age''], [''1'', ''alice'', ''30''], [''1'', ''alice'', ''31''],
          [''2'', ''bob'', []]]"
  by code_simp

text \<open>
  C10. The row built for any combination of records, the empty combination included,
  has one cell per output column; the rows \<^verbatim>\<open>WriteCSVs\<close> adds for a key all have the
  width of the output column list; and in the output of a run that succeeds every
  row has the width of the first row, the header.
\<close>

theorem uniform_width:
  "length (project outputColumns recs) = length outputColumns
   \<and> map length (WriteCSVs key outputColumns allData w) =
       map length w @
       replicate (prod_list (map (\<lambda>dc. max (length (data_at dc key)) 1) allData))
         (length outputColumns)
   \<and> (main rng args fs = Inr out \<longrightarrow>
        out \<noteq> [] \<and> (\<forall>row\<in>set out. length row = length (hd out)))"
proof (intro conjI impI)
  show "length (project outputColumns recs) = length outputColumns"
    by (rule length_project)
  show "map length (WriteCSVs key outputColumns allData w) =
       map length w @
       replicate (prod_list (map (\<lambda>dc. max (length (data_at dc key)) 1) allData))
         (length outputColumns)"
    by (simp add: WriteCSVs_rows comp_def length_project map_replicate_const length_combinations)
next
  assume "main rng args fs = Inr out"
  from main_output[OF this] obtain allHeaders allKeys allData where
    out: "out = IdentifyOutputColumns allHeaders #
                 concat (map (\<lambda>key. map (project (IdentifyOutputColumns allHeaders))
                                       (combinations key [] allData)) allKeys)"
    by blast
  show "out \<noteq> []" by (simp add: out)
  show "\<forall>row\<in>set out. length row = length (hd out)"
    by (auto simp: out length_project)
qed

theorem uniform_width_witness:
  "main (\<lambda>ks. ks) [''A'', ''B''] files_AB =
     Inr [[''id'', ''name'', ''age''], [''1'', ''alice'', ''30''], [''1'', ''alice'', ''31''],
          [''2'', ''bob'', []]]
   \<and> list_all (\<lambda>row. length row = 3)
        [[''id'', ''name'', ''age''], [''1'', ''alice'', ''30''], [''1'', ''alice'', ''31''],
         [''2'', ''bob'', []]]"
  using main_AB
    uniform_width[of "[]" "[]" "[]" "[]" "[]" "\<lambda>ks. ks" "[''A'', ''B'']" files_AB
      "[[''id'', ''name'', ''age''], [''1'', ''alice'', ''30''], [''1'', ''alice'', ''31''],
        [''2'', ''bob'', []]]"]
  by (simp add: list_all_iff)

subsection \<open>The key universe\<close>

lemma byte_order_examples:
  "''1++2'' < ''2++1'' \<and> [] < ''2'' \<and> ''a'' < ''ab'' \<and> ''ab'' < ''b'' \<and> ''B'' < ''a''"
  by simp

lemma permuting_set: "permuting rng \<Longrightarrow> set (rng ks) = set ks"
  unfolding permuting_def using mset_eq_setD by blast

lemma permuting_distinct: "permuting rng \<Longrightarrow> distinct (rng ks) = distinct ks"
  unfolding permuting_def using mset_eq_imp_distinct_iff by blast

lemma fold_mark:
  "set (fold (\<lambda>k keyMap. mark keyMap k) ks keyMap) = set keyMap \<union> set ks
   \<and> (distinct keyMap \<longrightarrow> distinct (fold (\<lambda>k keyMap. mark keyMap k) ks keyMap))"
  by (induction ks arbitrary: keyMap) (auto simp: mark_def)

lemma ReadData_loop_keys:
  "ReadData_loop reader headers joinColumns data = Inr data' \<Longrightarrow>
   fst ` set data' = fst ` set data \<union> keyOf joinColumns ` set (loaded_records headers reader)"
proof (induction reader headers joinColumns data rule: ReadData_loop.induct)
  case (1 headers joinColumns data)
  then show ?case by (simp add: loaded_records_def)
next
  case (2 partial reader headers joinColumns data)
  then show ?case by simp
next
  case (3 row reader headers joinColumns data)
  from "3.prems" obtain rec where rec: "recordOf headers row = Inr rec"
    by (cases "recordOf headers row") simp_all
  with "3.prems"
  have "ReadData_loop reader headers joinColumns (Add data (keyOf joinColumns rec) rec) = Inr data'"
    by simp
  from "3.IH"[OF rec this]
  have "fst ` set data' = fst ` set (Add data (keyOf joinColumns rec) rec)
          \<union> keyOf joinColumns ` set (loaded_records headers reader)" .
  moreover have "fst ` set (Add data (keyOf joinColumns rec) rec)
      = insert (keyOf joinColumns rec) (fst ` set data)"
  proof -
    have "set (map fst (Add data (keyOf joinColumns rec) rec))
        = insert (keyOf joinColumns rec) (fst ` set data)"
      unfolding Add_def Let_def keys_assign by auto
    then show ?thesis by simp
  qed
  moreover have "loaded_records headers (Row row # reader) = rec # loaded_records headers reader"
    using rec by (simp add: loaded_records_def)
  ultimately show ?case by auto
qed

lemma ReadData_keys:
  "ReadData reader headers joinColumns = Inr data \<Longrightarrow>
   fst ` set data = keyOf joinColumns ` set (loaded_records headers reader)"
  using ReadData_loop_keys[of reader headers joinColumns NewDataCollection data]
  by (simp add: ReadData_def NewDataCollection_def)

lemma ReadAll_loop_sources:
  assumes "permuting rng"
    and "ReadAll_loop rng i readers allHeaders joinColumns keyMap allData = Inr (keyMap', allData')"
    and "distinct keyMap"
  shows "distinct keyMap' \<and>
         (\<exists>new. allData' = allData @ new \<and> length new = length readers
              \<and> (\<forall>j<length readers.
                     ReadData (readers ! j) (allHeaders ! (i + j)) joinColumns = Inr (new ! j))
              \<and> set keyMap' = set keyMap \<union> (\<Union>dc\<in>set new. fst ` set dc))"
  using assms(2,3)
proof (induction readers arbitrary: i keyMap allData)
  case Nil
  then show ?case by simp
next
  case (Cons r readers)
  from Cons.prems(1) have i: "i < length allHeaders"
    by (simp split: if_splits)
  with Cons.prems(1) obtain data where
    data: "ReadData r (allHeaders ! i) joinColumns = Inr data"
    by (cases "ReadData r (allHeaders ! i) joinColumns") simp_all
  define km where "km = fold (\<lambda>k keyMap. mark keyMap k) (rng (map fst data)) keyMap"
  from Cons.prems(1) i data
  have step: "ReadAll_loop rng (i + 1) readers allHeaders joinColumns km (allData @ [data])
      = Inr (keyMap', allData')"
    by (simp add: km_def)
  have d: "distinct km" unfolding km_def using fold_mark Cons.prems(2) by blast
  have s: "set km = set keyMap \<union> fst ` set data"
    unfolding km_def
    using fold_mark[of "rng (map fst data)" keyMap] permuting_set[OF assms(1), of "map fst data"]
    by simp
  from Cons.IH[OF step d] obtain new where
    new: "distinct keyMap'" "allData' = (allData @ [data]) @ new" "length new = length readers"
      "\<forall>j<length readers.
          ReadData (readers ! j) (allHeaders ! (i + 1 + j)) joinColumns = Inr (new ! j)"
      "set keyMap' = set km \<union> (\<Union>dc\<in>set new. fst ` set dc)"
    by blast
  have a: "allData' = allData @ (data # new)" using new(2) by simp
  have l: "length (data # new) = length (r # readers)" using new(3) by simp
  have k: "set keyMap' = set keyMap \<union> (\<Union>dc\<in>set (data # new). fst ` set dc)"
    using new(5) s by auto
  have e: "ReadData ((r # readers) ! j) (allHeaders ! (i + j)) joinColumns = Inr ((data # new) ! j)"
    if "j < length (r # readers)" for j
  proof (cases j)
    case 0
    with data show ?thesis by simp
  next
    case (Suc n)
    with that have "n < length readers" by simp
    with new(4) have "ReadData (readers ! n) (allHeaders ! (i + 1 + n)) joinColumns = Inr (new ! n)"
      by blast
    with Suc show ?thesis by simp
  qed
  from a l k e new(1) show ?case by blast
qed

lemma ReadAll_AB:
  "ReadAllInputSources (\<lambda>ks. ks) [rows_A, rows_B] [[''id'', ''name''], [''id'', ''age'']] [''id'']
     = Inr ([''1'', ''2''], [data_A, data_B])"
  by (simp add: ReadAllInputSources_def example_defs eval_defs mark_def)

text \<open>
  C7. Whatever order the run time ranges over the maps in, the list of keys that
  \<^verbatim>\<open>ReadAllInputSources\<close> returns is strictly ascending in the byte-wise lexicographic
  order, so without duplicates, and its members are exactly the keys of the data
  collections returned with it. There is one data collection for each reader, the
  one \<^verbatim>\<open>ReadData\<close> loads from that reader under its own header, so the keys are exactly
  the keys of the records of the rows of all the sources.
\<close>

theorem key_universe:
  assumes "permuting rng"
    and "ReadAllInputSources rng readers allHeaders joinColumns = Inr (allKeys, allData)"
  shows "sorted_wrt (<) allKeys \<and> distinct allKeys
       \<and> set allKeys = (\<Union>dc\<in>set allData. fst ` set dc)
       \<and> length allData = length readers
       \<and> (\<forall>j<length readers.
             ReadData (readers ! j) (allHeaders ! j) joinColumns = Inr (allData ! j))
       \<and> set allKeys =
           (\<Union>j<length readers.
               keyOf joinColumns ` set (loaded_records (allHeaders ! j) (readers ! j)))"
proof -
  from assms(2) obtain keyMap where
    loop: "ReadAll_loop rng 0 readers allHeaders joinColumns [] [] = Inr (keyMap, allData)"
    and keys: "allKeys = sort (rng keyMap)"
    by (auto simp: ReadAllInputSources_def split: sum.splits prod.splits)
  from ReadAll_loop_sources[OF assms(1) loop]
  have d: "distinct keyMap" and s: "set keyMap = (\<Union>dc\<in>set allData. fst ` set dc)"
    and l: "length allData = length readers"
    and e: "\<forall>j<length readers.
             ReadData (readers ! j) (allHeaders ! j) joinColumns = Inr (allData ! j)"
    by auto
  have "distinct allKeys" using d permuting_distinct[OF assms(1)] keys by simp
  moreover have "sorted allKeys" using keys by simp
  moreover have u: "set allKeys = (\<Union>dc\<in>set allData. fst ` set dc)"
    using keys s permuting_set[OF assms(1)] by simp
  moreover have "set allKeys =
           (\<Union>j<length readers.
               keyOf joinColumns ` set (loaded_records (allHeaders ! j) (readers ! j)))"
  proof -
    have st: "set allData = (!) allData ` {..<length allData}"
      by (auto simp: set_conv_nth)
    have "(\<Union>dc\<in>set allData. fst ` set dc) =
          (\<Union>dc\<in>(!) allData ` {..<length allData}. fst ` set dc)"
      by (simp only: st[symmetric])
    also have "\<dots> = (\<Union>j<length allData. fst ` set (allData ! j))"
      by (simp only: image_image)
    also have "\<dots> = (\<Union>j<length readers.
               keyOf joinColumns ` set (loaded_records (allHeaders ! j) (readers ! j)))"
    proof -
      have "fst ` set (allData ! j) =
            keyOf joinColumns ` set (loaded_records (allHeaders ! j) (readers ! j))"
        if "j < length readers" for j
        using e that by (intro ReadData_keys) blast
      then show ?thesis using l by auto
    qed
    finally show ?thesis using u by simp
  qed
  ultimately show ?thesis using l e by (simp add: strict_sorted_iff)
qed

theorem key_universe_witness:
  "permuting (\<lambda>ks. ks)
   \<and> ReadAllInputSources (\<lambda>ks. ks) [rows_A, rows_B] [[''id'', ''name''], [''id'', ''age'']] [''id'']
       = Inr ([''1'', ''2''], [data_A, data_B])
   \<and> sorted_wrt (<) [''1'', ''2''] \<and> distinct [''1'', ''2'']
   \<and> set [''1'', ''2''] = (\<Union>dc\<in>set [data_A, data_B]. fst ` set dc)
   \<and> length [data_A, data_B] = length [rows_A, rows_B]
   \<and> ReadData rows_A [''id'', ''name''] [''id''] = Inr data_A
   \<and> ReadData rows_B [''id'', ''age''] [''id''] = Inr data_B"
proof -
  have p: "permuting (\<lambda>ks. ks)" by (simp add: permuting_def)
  from key_universe[OF p ReadAll_AB]
  have a: "\<forall>j<length [rows_A, rows_B].
          ReadData ([rows_A, rows_B] ! j) ([[''id'', ''name''], [''id'', ''age'']] ! j) [''id'']
            = Inr ([data_A, data_B] ! j)"
    and k: "sorted_wrt (<) [''1'', ''2''] \<and> distinct [''1'', ''2'']
       \<and> set [''1'', ''2''] = (\<Union>dc\<in>set [data_A, data_B]. fst ` set dc)"
    by blast+
  from a[rule_format, of 0] have "ReadData rows_A [''id'', ''name''] [''id''] = Inr data_A"
    by simp
  moreover from a[rule_format, of 1]
  have "ReadData rows_B [''id'', ''age''] [''id''] = Inr data_B"
    by simp
  ultimately have "ReadData rows_A [''id'', ''name''] [''id''] = Inr data_A
      \<and> ReadData rows_B [''id'', ''age''] [''id''] = Inr data_B"
    by blast
  with p ReadAll_AB k show ?thesis by simp
qed

subsection \<open>The output columns\<close>

lemma Append_eq: "Append u s = (if s \<in> set u then u else u @ [s])"
  by (induction u) auto

lemma fold_fold_concat: "fold (\<lambda>xs acc. fold f xs acc) xss acc = fold f (concat xss) acc"
  by (induction xss arbitrary: acc) simp_all

lemma IdentifyOutputColumns_concat:
  "IdentifyOutputColumns allHeaders = fold (\<lambda>col u. Append u col) (concat allHeaders) []"
  by (simp add: IdentifyOutputColumns_def GetSlice_def fold_fold_concat)

lemma first_index_seen: "x \<in> set xs \<Longrightarrow> first_index (xs @ ys) x = first_index xs x"
  by (simp add: first_index_def takeWhile_append1)

lemma first_index_less: "x \<in> set xs \<Longrightarrow> first_index xs x < length xs"
  unfolding first_index_def by (induction xs) auto

lemma first_index_new: "x \<notin> set xs \<Longrightarrow> first_index (xs @ [x]) x = length xs"
  unfolding first_index_def by (induction xs) auto

lemma unique_fold:
  "set (fold (\<lambda>col u. Append u col) cols []) = set cols
   \<and> distinct (fold (\<lambda>col u. Append u col) cols [])
   \<and> sorted_wrt (\<lambda>x y. first_index cols x < first_index cols y)
        (fold (\<lambda>col u. Append u col) cols [])"
proof (induction cols rule: rev_induct)
  case Nil
  show ?case by simp
next
  case (snoc c cols)
  let ?u = "fold (\<lambda>col u. Append u col) cols []"
  from snoc have s: "set ?u = set cols" and d: "distinct ?u"
    and o: "sorted_wrt (\<lambda>x y. first_index cols x < first_index cols y) ?u"
    by simp_all
  have o': "sorted_wrt (\<lambda>x y. first_index (cols @ [c]) x < first_index (cols @ [c]) y) ?u"
    using o s by (auto intro!: sorted_wrt_mono_rel[OF _ o] simp: first_index_seen)
  show ?case
  proof (cases "c \<in> set cols")
    case True
    with s d o' show ?thesis by (auto simp: Append_eq)
  next
    case False
    have "\<forall>x\<in>set ?u. first_index (cols @ [c]) x < first_index (cols @ [c]) c"
      using False s by (simp add: first_index_new first_index_seen first_index_less)
    with False s d o' show ?thesis by (auto simp: Append_eq sorted_wrt_append)
  qed
qed

text \<open>
  C6, as amended. The output column list has no repeated name; its names are exactly
  the names that occur in some header; a name stands before another one exactly as
  its first occurrence does in the headers read one after the other; and the list is
  at least as long as the number of distinct names of any one header, hence at least
  as long as any header that repeats no name.
\<close>

theorem output_columns:
  "distinct (IdentifyOutputColumns allHeaders)
   \<and> set (IdentifyOutputColumns allHeaders) = (\<Union>header\<in>set allHeaders. set header)
   \<and> sorted_wrt (\<lambda>x y. first_index (concat allHeaders) x < first_index (concat allHeaders) y)
        (IdentifyOutputColumns allHeaders)
   \<and> (\<forall>header\<in>set allHeaders. card (set header) \<le> length (IdentifyOutputColumns allHeaders))
   \<and> (\<forall>header\<in>set allHeaders.
         distinct header \<longrightarrow> length header \<le> length (IdentifyOutputColumns allHeaders))"
proof -
  let ?out = "IdentifyOutputColumns allHeaders"
  note u = unique_fold[of "concat allHeaders", folded IdentifyOutputColumns_concat]
  have d: "distinct ?out" and s: "set ?out = (\<Union>header\<in>set allHeaders. set header)"
    using u by simp_all
  have c: "card (set header) \<le> length ?out" if "header \<in> set allHeaders" for header
  proof -
    have "set header \<subseteq> set ?out" using that s by auto
    then have "card (set header) \<le> card (set ?out)" by (simp add: card_mono)
    also have "\<dots> = length ?out" using d by (simp add: distinct_card)
    finally show ?thesis .
  qed
  have "length header \<le> length ?out" if "header \<in> set allHeaders" "distinct header" for header
    using c[OF that(1)] that(2) by (simp add: distinct_card)
  with c d s u show ?thesis by blast
qed

theorem output_columns_witness:
  "IdentifyOutputColumns [[''id'', ''name''], [''id'', ''age'']] = [''id'', ''name'', ''age'']
   \<and> distinct [''id'', ''age''] \<and> [''id'', ''age''] \<in> set [[''id'', ''name''], [''id'', ''age'']]
   \<and> length [''id'', ''age'']
       \<le> length (IdentifyOutputColumns [[''id'', ''name''], [''id'', ''age'']])
   \<and> card (set [''id'', ''age''])
       \<le> length (IdentifyOutputColumns [[''id'', ''name''], [''id'', ''age'']])"
proof -
  have e: "IdentifyOutputColumns [[''id'', ''name''], [''id'', ''age'']] = [''id'', ''name'', ''age'']"
    by (simp add: IdentifyOutputColumns_def GetSlice_def)
  have m: "[''id'', ''age''] \<in> set [[''id'', ''name''], [''id'', ''age'']]" by simp
  have d: "distinct [''id'', ''age'']" by simp
  from output_columns[of "[[''id'', ''name''], [''id'', ''age'']]"] m d e
  show ?thesis by blast
qed

text \<open>
  C6 as stated fails for a header that repeats a name: for the headers \<^verbatim>\<open>k,v,v\<close> and
  \<^verbatim>\<open>k\<close> the output column list is \<^verbatim>\<open>k,v\<close>, shorter than the first header.
\<close>

theorem output_columns_counterexample:
  "\<not> length [''k'', ''v'', ''v'']
       \<le> length (IdentifyOutputColumns [[''k'', ''v'', ''v''], [''k'']])"
  by (simp add: IdentifyOutputColumns_def GetSlice_def)

subsection \<open>The join key\<close>

lemma keyOf_loop_joined:
  "keyOf_loop i cs rec sb =
     (if cs = [] then sb
      else (if i > 0 then sb @ ''++'' else sb) @ joined (map (index_rec rec) cs))"
proof (induction cs arbitrary: i sb)
  case Nil
  show ?case by simp
next
  case (Cons c cs)
  let ?sb = "(if i > 0 then sb @ ''++'' else sb) @ index_rec rec c"
  have "keyOf_loop i (c # cs) rec sb = keyOf_loop (i + 1) cs rec ?sb"
    by simp
  also have "\<dots> = (if cs = [] then ?sb else (?sb @ ''++'') @ joined (map (index_rec rec) cs))"
    by (subst Cons.IH) simp
  finally show ?case by (cases cs) simp_all
qed

lemma keyOf_joined: "keyOf joinColumns rec = joined (map (index_rec rec) joinColumns)"
  by (simp add: keyOf_def keyOf_loop_joined)

lemma plus_split:
  assumes "a @ CHR ''+'' # x = b @ CHR ''+'' # y" "CHR ''+'' \<notin> set a" "CHR ''+'' \<notin> set b"
  shows "a = b \<and> x = y"
proof -
  have "takeWhile (\<lambda>c. c \<noteq> CHR ''+'') (a @ CHR ''+'' # x) = a"
    using assms(2) by (induction a) auto
  moreover have "takeWhile (\<lambda>c. c \<noteq> CHR ''+'') (b @ CHR ''+'' # y) = b"
    using assms(3) by (induction b) auto
  ultimately have "a = b" using assms(1) by simp
  with assms(1) show ?thesis by simp
qed

lemma joined_inj:
  assumes "length vs = length ws"
    and "\<forall>v\<in>set vs. CHR ''+'' \<notin> set v" and "\<forall>w\<in>set ws. CHR ''+'' \<notin> set w"
    and "joined vs = joined ws"
  shows "vs = ws"
  using assms
proof (induction vs ws rule: list_induct2)
  case Nil
  show ?case by simp
next
  case (Cons v vs w ws)
  show ?case
  proof (cases vs)
    case Nil
    with Cons show ?thesis by simp
  next
    case vs: (Cons v' vs')
    with Cons.hyps obtain w' ws' where ws: "ws = w' # ws'" by (cases ws) auto
    from Cons.prems(3) vs ws
    have "v @ CHR ''+'' # (CHR ''+'' # joined vs) = w @ CHR ''+'' # (CHR ''+'' # joined ws)"
      by simp
    from plus_split[OF this] Cons.prems(1,2)
    have "v = w" and "joined vs = joined ws" by simp_all
    with Cons.IH Cons.prems(1,2) show ?thesis by simp
  qed
qed

text \<open>
  C1, as amended. Two records that agree on the value of every join column (the empty
  string for a column the record lacks) have equal keys. Equal keys mean agreement
  on every join column when there is at most one join column, or when no
  join-column value of either record contains the character \<^verbatim>\<open>+\<close>.
\<close>

theorem key_equality:
  "((\<forall>c\<in>set joinColumns. index_rec r1 c = index_rec r2 c)
      \<longrightarrow> keyOf joinColumns r1 = keyOf joinColumns r2)
   \<and> (length joinColumns \<le> 1
        \<or> (\<forall>c\<in>set joinColumns.
              CHR ''+'' \<notin> set (index_rec r1 c) \<and> CHR ''+'' \<notin> set (index_rec r2 c))
      \<longrightarrow> (keyOf joinColumns r1 = keyOf joinColumns r2
            \<longleftrightarrow> (\<forall>c\<in>set joinColumns. index_rec r1 c = index_rec r2 c)))"
proof (intro conjI impI)
  assume "\<forall>c\<in>set joinColumns. index_rec r1 c = index_rec r2 c"
  then have "map (index_rec r1) joinColumns = map (index_rec r2) joinColumns" by simp
  then show "keyOf joinColumns r1 = keyOf joinColumns r2" by (simp only: keyOf_joined)
next
  assume c: "length joinColumns \<le> 1
     \<or> (\<forall>c\<in>set joinColumns.
           CHR ''+'' \<notin> set (index_rec r1 c) \<and> CHR ''+'' \<notin> set (index_rec r2 c))"
  have "map (index_rec r1) joinColumns = map (index_rec r2) joinColumns"
    if k: "keyOf joinColumns r1 = keyOf joinColumns r2"
  proof -
    from c show ?thesis
    proof
      assume "length joinColumns \<le> 1"
      then consider "joinColumns = []" | c where "joinColumns = [c]"
        by (cases joinColumns) (auto simp: Suc_le_length_iff)
      then show ?thesis using k by cases (simp_all add: keyOf_joined)
    next
      assume "\<forall>c\<in>set joinColumns.
                CHR ''+'' \<notin> set (index_rec r1 c) \<and> CHR ''+'' \<notin> set (index_rec r2 c)"
      then show ?thesis
        using k by (intro joined_inj) (auto simp: keyOf_joined)
    qed
  qed
  moreover have "keyOf joinColumns r1 = keyOf joinColumns r2"
    if "map (index_rec r1) joinColumns = map (index_rec r2) joinColumns"
    using that by (simp only: keyOf_joined)
  ultimately show "keyOf joinColumns r1 = keyOf joinColumns r2
            \<longleftrightarrow> (\<forall>c\<in>set joinColumns. index_rec r1 c = index_rec r2 c)"
    by auto
qed

theorem key_equality_witness:
  "CHR ''+'' \<notin> set (index_rec age30 ''id'') \<and> CHR ''+'' \<notin> set (index_rec age31 ''id'')
   \<and> index_rec age30 ''id'' = index_rec age31 ''id''
   \<and> keyOf [''id''] age30 = keyOf [''id''] age31
   \<and> CHR ''+'' \<notin> set (index_rec alice ''name'') \<and> CHR ''+'' \<notin> set (index_rec bob ''name'')
   \<and> keyOf [''id'', ''name''] alice \<noteq> keyOf [''id'', ''name''] bob"
  using key_equality[of "[''id'']" age30 age31] key_equality[of "[''id'', ''name'']" alice bob]
  by (simp add: index_rec_def example_defs)

text \<open>
  C1 as stated fails when a value contains the separator: under the join columns
  \<^verbatim>\<open>lang,ext\<close> the rows \<^verbatim>\<open>C++,\<close> and \<^verbatim>\<open>C,++\<close> both have the key \<^verbatim>\<open>C++++\<close>, and differ in
  the column \<^verbatim>\<open>lang\<close>.
\<close>

theorem key_equality_counterexample:
  "recordOf [''lang'', ''ext''] [''C++'', []] = Inr cpp_left
   \<and> recordOf [''lang'', ''ext''] [''C'', ''++''] = Inr cpp_right
   \<and> keyOf [''lang'', ''ext''] cpp_left = keyOf [''lang'', ''ext''] cpp_right
   \<and> index_rec cpp_left ''lang'' \<noteq> index_rec cpp_right ''lang''"
  by (simp add: recordOf_def keyOf_def index_rec_def cpp_left_def cpp_right_def)

subsection \<open>The join columns\<close>

text \<open>
  Whatever order the map is ranged over in, the join columns are the names whose
  number of occurrences in all the headers together equals the number of headers.
  When no header repeats a name these are the names that are in every header.
\<close>

lemma count_at_incr:
  "count_at (incr hc col) c = (if c = col then count_at hc c + 1 else count_at hc c)"
  by (simp add: incr_def count_at_def map_of_assign)

lemma keys_incr: "fst ` set (incr hc col) = insert col (fst ` set hc)"
proof -
  have "set (map fst (incr hc col)) = insert col (fst ` set hc)"
    unfolding incr_def keys_assign by auto
  then show ?thesis by simp
qed

lemma distinct_incr: "distinct (map fst hc) \<Longrightarrow> distinct (map fst (incr hc col))"
  by (simp add: incr_def keys_assign)

lemma count_fold_incr:
  "count_at (fold (\<lambda>col hc. incr hc col) cols hc) c = count_at hc c + count_list cols c"
  by (induction cols arbitrary: hc) (simp_all add: count_at_incr)

lemma keys_fold_incr:
  "fst ` set (fold (\<lambda>col hc. incr hc col) cols hc) = fst ` set hc \<union> set cols"
  by (induction cols arbitrary: hc) (simp_all add: keys_incr)

lemma distinct_fold_incr:
  "distinct (map fst hc) \<Longrightarrow> distinct (map fst (fold (\<lambda>col hc. incr hc col) cols hc))"
  by (induction cols arbitrary: hc) (simp_all add: distinct_incr)

lemma headerCounts_concat:
  "headerCounts allHeaders = fold (\<lambda>col hc. incr hc col) (concat allHeaders) []"
  by (simp add: headerCounts_def fold_fold_concat)

lemma headerCounts_count:
  "count_at (headerCounts allHeaders) col = count_list (concat allHeaders) col"
  using count_fold_incr[of "concat allHeaders" "[]" col]
  by (simp add: headerCounts_concat count_at_def)

lemma headerCounts_keys:
  "set (map fst (headerCounts allHeaders)) = set (concat allHeaders)
   \<and> distinct (map fst (headerCounts allHeaders))"
  using keys_fold_incr[of "concat allHeaders" "[]"] distinct_fold_incr[of "[]" "concat allHeaders"]
  by (simp add: headerCounts_concat)

lemma join_columns_are_counted:
  assumes "permuting rng"
  shows "(IdentifyJoinColumns rng allHeaders = Inr joinColumns \<longrightarrow>
           distinct joinColumns \<and>
           set joinColumns = {col \<in> set (concat allHeaders).
                               count_list (concat allHeaders) col = length allHeaders})
       \<and> (IdentifyJoinColumns rng allHeaders = Inl e \<longrightarrow>
           e = NoJoinColumns \<and>
           {col \<in> set (concat allHeaders).
              count_list (concat allHeaders) col = length allHeaders} = {})"
proof -
  define ks where "ks = rng (map fst (headerCounts allHeaders))"
  define jc where
    "jc = filter (\<lambda>col. count_at (headerCounts allHeaders) col = length allHeaders) ks"
  define S where "S = {col \<in> set (concat allHeaders).
                        count_list (concat allHeaders) col = length allHeaders}"
  have s: "set ks = set (concat allHeaders)" and d: "distinct ks"
    using headerCounts_keys[of allHeaders] permuting_set[OF assms] permuting_distinct[OF assms]
    by (simp_all add: ks_def)
  have sj: "set jc = S"
    unfolding jc_def S_def set_filter s by (simp only: headerCounts_count)
  have dj: "distinct jc" using d by (simp add: jc_def)
  have r: "IdentifyJoinColumns rng allHeaders = (if jc = [] then Inl NoJoinColumns else Inr jc)"
    by (simp add: IdentifyJoinColumns_def Let_def jc_def ks_def)
  have "(IdentifyJoinColumns rng allHeaders = Inr joinColumns \<longrightarrow>
           distinct joinColumns \<and> set joinColumns = S)
       \<and> (IdentifyJoinColumns rng allHeaders = Inl e \<longrightarrow> e = NoJoinColumns \<and> S = {})"
  proof (cases "jc = []")
    case True
    with sj have "S = {}" by auto
    with r True show ?thesis by simp
  next
    case False
    with r sj dj show ?thesis by auto
  qed
  then show ?thesis unfolding S_def .
qed

lemma count_list_concat: "count_list (concat xss) x = sum_list (map (\<lambda>xs. count_list xs x) xss)"
  by (induction xss) simp_all

lemma count_list_distinct: "distinct xs \<Longrightarrow> count_list xs x = (if x \<in> set xs then 1 else 0)"
  by (induction xs) auto

lemma sum_list_indicator_full:
  "sum_list (map (\<lambda>x. if P x then 1 else 0) xs) = length xs \<longleftrightarrow> (\<forall>x\<in>set xs. P x)"
proof (induction xs)
  case Nil
  show ?case by simp
next
  case (Cons x xs)
  have "sum_list (map (\<lambda>x. if P x then 1 else (0::nat)) xs) \<le> length xs"
    by (induction xs) simp_all
  with Cons show ?case by auto
qed

lemma count_in_every_header:
  assumes "\<forall>header\<in>set allHeaders. distinct header"
  shows "count_list (concat allHeaders) col = length allHeaders
         \<longleftrightarrow> (\<forall>header\<in>set allHeaders. col \<in> set header)"
proof -
  have "map (\<lambda>xs. count_list xs col) allHeaders =
        map (\<lambda>xs. if col \<in> set xs then 1 else 0) allHeaders"
    using assms by (simp add: count_list_distinct)
  then show ?thesis
    by (simp only: count_list_concat sum_list_indicator_full)
qed

lemma join_columns_without_repeats:
  assumes "permuting rng" and "\<forall>header\<in>set allHeaders. distinct header"
    and "IdentifyJoinColumns rng allHeaders = Inr joinColumns"
  shows "set joinColumns =
           {col \<in> set (concat allHeaders). \<forall>header\<in>set allHeaders. col \<in> set header}"
  using join_columns_are_counted[OF assms(1), of allHeaders joinColumns] assms(3)
    count_in_every_header[OF assms(2)]
  by simp

subsection \<open>Where the program departs from its description\<close>

text \<open>
  C2. \<^verbatim>\<open>IdentifyJoinColumns\<close> is described as finding the columns that are in all the
  input sources, and counts every occurrence of a name, also a second one within
  the same header. For the headers \<^verbatim>\<open>a,a\<close> and \<^verbatim>\<open>b\<close> it returns \<^verbatim>\<open>a\<close>, a column the
  second source lacks, and the program writes a join although no column is common;
  for the headers \<^verbatim>\<open>a,a\<close> and \<^verbatim>\<open>a\<close> it finds no join column although \<^verbatim>\<open>a\<close> is in both.
\<close>

theorem join_columns_count_duplicates:
  "IdentifyJoinColumns (\<lambda>ks. ks) [[''a'', ''a''], [''b'']] = Inr [''a'']
   \<and> IdentifyJoinColumns rev [[''a'', ''a''], [''b'']] = Inr [''a'']
   \<and> IdentifyJoinColumns (\<lambda>ks. ks) [[''a'', ''a''], [''a'']] = Inl NoJoinColumns
   \<and> main (\<lambda>ks. ks) [''A'', ''B''] files_dup = Inr [[''a'', ''b''], [[], ''3''], [''2'', []]]"
  by code_simp

text \<open>
  C4. The join columns are collected by ranging over a map, in an order the run time
  chooses, and are not sorted afterwards, unlike the keys. With two join columns the
  two possible orders give different key strings, hence a different order of the
  keys and of the rows written: two runs on the same files can differ.
\<close>

theorem output_depends_on_range_order:
  "permuting (\<lambda>ks. ks) \<and> permuting rev
   \<and> main (\<lambda>ks. ks) [''A'', ''B''] files_swap
       = Inr [[''a'', ''b''], [''1'', ''2''], [''2'', ''1'']]
   \<and> main rev [''A'', ''B''] files_swap
       = Inr [[''a'', ''b''], [''2'', ''1''], [''1'', ''2'']]"
proof -
  have "main (\<lambda>ks. ks) [''A'', ''B''] files_swap
      = Inr [[''a'', ''b''], [''1'', ''2''], [''2'', ''1'']]"
    by code_simp
  moreover have "main rev [''A'', ''B''] files_swap
      = Inr [[''a'', ''b''], [''2'', ''1''], [''1'', ''2'']]"
    by code_simp
  ultimately show ?thesis by (simp add: permuting_def)
qed

text \<open>
  C9. \<^verbatim>\<open>GatherAllHeaders\<close> tests the error of the header's \<^verbatim>\<open>Read\<close> against \<^verbatim>\<open>io.EOF\<close>
  only, where \<^verbatim>\<open>ReadData\<close> stops the program on every error. A header line that does
  not parse is taken as a header without columns, and the run can go on to write
  its output; the same error in a data row is fatal.
\<close>

theorem header_error_not_fatal:
  "main (\<lambda>ks. ks) [''A'', ''B''] files_bad_header = Inr [[''a''], [''2'']]
   \<and> main rev [''A'', ''B''] files_bad_header = Inr [[''a''], [''2'']]
   \<and> main (\<lambda>ks. ks) [''A'', ''B''] files_bad_row = Inl ReadFailure"
  by code_simp

end
